theory Spec2Isabelle
  imports Main "HOL-Library.Char_ord" "HOL-Library.List_Lexorder" "HOL-Library.Multiset"
begin

section \<open>Python strings, slices and searches\<close>

text \<open>
  The program is \<^verbatim>\<open>progsnap.py\<close>. Python strings are modelled as \<^typ>\<open>string\<close>,
  Python integers as \<^typ>\<open>int\<close>. A slice bound of a sequence of length \<open>n\<close> is
  clamped the way Python does it: a negative bound counts from the end and stops at
  \<open>0\<close>, a bound beyond the end stops at \<open>n\<close>.
\<close>

definition NL :: char where
  "NL = CHR 0x0A"

definition SLASH :: char where
  "SLASH = CHR ''/''"

definition slice_index :: "nat \<Rightarrow> int \<Rightarrow> nat" where
  "slice_index n i = (if i < 0 then nat (int n + i) else min n (nat i))"

text \<open>\<^verbatim>\<open>s[a:b]\<close>, \<^verbatim>\<open>s[:b]\<close> and \<^verbatim>\<open>s[a:]\<close>.\<close>

definition py_slice :: "'a list \<Rightarrow> int \<Rightarrow> int \<Rightarrow> 'a list" where
  "py_slice s a b =
     (let lo = slice_index (length s) a; hi = slice_index (length s) b
      in take (hi - lo) (drop lo s))"

definition slice_to :: "'a list \<Rightarrow> int \<Rightarrow> 'a list" where
  "slice_to s b = take (slice_index (length s) b) s"

definition slice_from :: "'a list \<Rightarrow> int \<Rightarrow> 'a list" where
  "slice_from s a = drop (slice_index (length s) a) s"

text \<open>
  \<^verbatim>\<open>s.find(c)\<close> for a one-character \<open>c\<close>: the least index holding \<open>c\<close>, or \<open>-1\<close>.
  \<^verbatim>\<open>s.find(c, start)\<close> searches from the clamped \<open>start\<close>.
\<close>

primrec first_index :: "char \<Rightarrow> string \<Rightarrow> int" where
  "first_index c [] = - 1"
| "first_index c (x # xs) =
     (if x = c then 0
      else (let r = first_index c xs in if r < 0 then - 1 else r + 1))"

definition str_find :: "string \<Rightarrow> char \<Rightarrow> int \<Rightarrow> int" where
  "str_find s c start =
     (let k = slice_index (length s) start; r = first_index c (drop k s)
      in if r < 0 then - 1 else int k + r)"

text \<open>\<^verbatim>\<open>s.endswith(suf)\<close>, \<^verbatim>\<open>s.startswith(pfx)\<close> and \<^verbatim>\<open>s.count(c)\<close>.\<close>

definition endswith :: "string \<Rightarrow> string \<Rightarrow> bool" where
  "endswith s suf = (length suf \<le> length s \<and> drop (length s - length suf) s = suf)"

definition startswith :: "string \<Rightarrow> string \<Rightarrow> bool" where
  "startswith s pfx = (take (length pfx) s = pfx)"

definition str_count :: "string \<Rightarrow> char \<Rightarrow> int" where
  "str_count s c = int (count_list s c)"

section \<open>Errors\<close>

text \<open>
  Every \<^verbatim>\<open>raise ProgsnapError(...)\<close> of the source is one constructor; the payloads are
  the values the source formats into the message. \<open>UnicodeDecodeError\<close>,
  \<open>JSONDecodeError\<close>, \<open>TypeError\<close> and \<open>KeyError\<close> are the Python exceptions the
  scanner can let escape, and \<open>OSError\<close> is the one of the host's directory listing.
\<close>

datatype error =
    InvalidData nat
  | MultipleEditEvents
  | NoSuchLine int
  | PositionOutOfBounds int int int nat
  | DeletionBeyondEnd int nat
  | DeleteMismatch string string
  | UnicodeDecodeError
  | JSONDecodeError
  | TypeError
  | KeyError
  | OSError

section \<open>TextDocument\<close>

record TextDocument =
  doc_text :: string

definition VERIFY_DELETES :: bool where
  "VERIFY_DELETES = True"

definition new_document :: TextDocument where
  "new_document = \<lparr>doc_text = ''''\<rparr>"

definition get_num_lines :: "TextDocument \<Rightarrow> int" where
  "get_num_lines d =
     (let num_nl = str_count (doc_text d) NL
      in if \<not> endswith (doc_text d) [NL] then num_nl + 1 else num_nl)"

text \<open>
  \<^verbatim>\<open>_line_chunks\<close> is a generator; the model returns the list of the chunks it yields,
  from the position \<open>pos\<close> of its loop on.
\<close>

function line_chunks_from :: "string \<Rightarrow> int \<Rightarrow> string list" where
  "line_chunks_from txt pos =
     (if pos < int (length txt) then
        (let nextnl = str_find txt NL pos
         in if nextnl < 0 then [slice_from txt pos]
            else py_slice txt pos (nextnl + 1) # line_chunks_from txt (nextnl + 1))
      else [])"
  by pat_completeness auto
termination
  by (relation "measure (\<lambda>(txt, pos). nat (int (length txt) - pos))")
     (auto simp: str_find_def slice_index_def Let_def split: if_splits)

declare line_chunks_from.simps [simp del]

definition line_chunks :: "string \<Rightarrow> string list" where
  "line_chunks txt = line_chunks_from txt 0"

fun get_line_loop :: "string list \<Rightarrow> int \<Rightarrow> int \<Rightarrow> error + string" where
  "get_line_loop [] index cnt = Inl (NoSuchLine index)"
| "get_line_loop (line # rest) index cnt =
     (if cnt = index then Inr line else get_line_loop rest index (cnt + 1))"

definition get_line :: "TextDocument \<Rightarrow> int \<Rightarrow> error + string" where
  "get_line d index = get_line_loop (line_chunks (doc_text d)) index 0"

definition get_text :: "TextDocument \<Rightarrow> string" where
  "get_text d = doc_text d"

definition set_text :: "TextDocument \<Rightarrow> string \<Rightarrow> TextDocument" where
  "set_text d txt = d\<lparr>doc_text := txt\<rparr>"

text \<open>
  The loop of \<^verbatim>\<open>_get_pos\<close> that skips to the beginning of the wanted row; \<open>atrow\<close>
  and \<open>pos\<close> are its two variables.
\<close>

function skip_rows :: "string \<Rightarrow> int \<Rightarrow> int \<Rightarrow> int \<Rightarrow> error + int" where
  "skip_rows txt row atrow pos =
     (if atrow < row then
        (let nextpos = str_find txt NL pos
         in if nextpos < 0 then Inl (NoSuchLine row)
            else skip_rows txt row (atrow + 1) (nextpos + 1))
      else Inr pos)"
  by pat_completeness auto
termination
  by (relation "measure (\<lambda>(txt, row, atrow, pos). nat (row - atrow))") auto

declare skip_rows.simps [simp del]

definition get_pos :: "TextDocument \<Rightarrow> int \<Rightarrow> int \<Rightarrow> error + int" where
  "get_pos d row col =
     (case skip_rows (doc_text d) row 0 0 of
        Inl e \<Rightarrow> Inl e
      | Inr pos0 \<Rightarrow>
          (let pos = pos0 + col
           in if pos > int (length (doc_text d))
              then Inl (PositionOutOfBounds row col pos (length (doc_text d)))
              else Inr pos))"

definition insert_at :: "TextDocument \<Rightarrow> int \<Rightarrow> int \<Rightarrow> string \<Rightarrow> error + TextDocument" where
  "insert_at d row col txt =
     (case get_pos d row col of
        Inl e \<Rightarrow> Inl e
      | Inr pos \<Rightarrow>
          Inr (d\<lparr>doc_text := slice_to (doc_text d) pos @ txt @ slice_from (doc_text d) pos\<rparr>))"

text \<open>
  The second half of \<^verbatim>\<open>delete_at\<close>, from the verification on: \<open>pos\<close>, \<open>endpos\<close> and
  \<open>txt\<close> are the values the first half leaves in these variables. The flag is
  \<^verbatim>\<open>TextDocument.VERIFY_DELETES\<close>.
\<close>

definition delete_range :: "bool \<Rightarrow> TextDocument \<Rightarrow> int \<Rightarrow> int \<Rightarrow> string \<Rightarrow> error + TextDocument" where
  "delete_range verify d pos endpos txt =
     (let to_remove = py_slice (doc_text d) pos endpos
      in if verify \<and> to_remove \<noteq> txt then Inl (DeleteMismatch txt to_remove)
         else Inr (d\<lparr>doc_text := slice_to (doc_text d) pos @ slice_from (doc_text d) endpos\<rparr>))"

definition delete_at_with :: "bool \<Rightarrow> TextDocument \<Rightarrow> int \<Rightarrow> int \<Rightarrow> string \<Rightarrow> error + TextDocument" where
  "delete_at_with verify d row col txt =
     (case get_pos d row col of
        Inl e \<Rightarrow> Inl e
      | Inr pos \<Rightarrow>
          (let endpos = pos + int (length txt); len = int (length (doc_text d))
           in if endpos > len then
                (if endpos = len + 1 \<and> endswith txt [NL]
                 then delete_range verify d pos (endpos - 1) (slice_to txt (int (length txt) - 1))
                 else Inl (DeletionBeyondEnd endpos (length (doc_text d))))
              else delete_range verify d pos endpos txt))"

definition delete_at :: "TextDocument \<Rightarrow> int \<Rightarrow> int \<Rightarrow> string \<Rightarrow> error + TextDocument" where
  "delete_at = delete_at_with VERIFY_DELETES"

text \<open>
  The offset of the first character of a row, stated without the loop: \<open>p\<close> is the start
  of row \<open>row\<close> when exactly \<open>row\<close> newlines come before it and it is the beginning of
  the buffer or follows a newline directly.
\<close>

definition is_row_start :: "string \<Rightarrow> nat \<Rightarrow> nat \<Rightarrow> bool" where
  "is_row_start txt row p =
     (p \<le> length txt \<and> count_list (take p txt) NL = row \<and> (p = 0 \<or> txt ! (p - 1) = NL))"

section \<open>Tagged records and the TagHandler\<close>

text \<open>
  What \<^verbatim>\<open>json.loads\<close> returns. An object is the list of its members, as the dict holds
  them: one member for each key. \<open>JNum\<close> is a Python \<open>int\<close>; a number that parses to a
  \<open>float\<close> is \<open>JFloat\<close> with the text it was read from, and nothing is computed with it.
\<close>

datatype json =
    JNull
  | JBool bool
  | JNum int
  | JFloat string
  | JStr string
  | JArr "json list"
  | JObj "(string \<times> json) list"

text \<open>
  A callback takes the tag, the value and the state it works on (the object its closure
  holds), and returns the state it leaves, with the exception it raised if it raised one.
\<close>

type_synonym 's callback = "string \<Rightarrow> json \<Rightarrow> 's \<Rightarrow> 's \<times> error option"

record 's TagHandler =
  handlers :: "string \<rightharpoonup> 's callback"

definition ignore_tag :: "'s callback" where
  "ignore_tag tag v s = (s, None)"

text \<open>
  \<^verbatim>\<open>TagHandler.__init__\<close>: the handler of \<open>'unknown'\<close> first, then every entry of
  \<open>callbacks\<close> over it.
\<close>

definition new_TagHandler :: "(string \<rightharpoonup> 's callback) \<Rightarrow> 's TagHandler" where
  "new_TagHandler callbacks = \<lparr>handlers = [''unknown'' \<mapsto> ignore_tag] ++ callbacks\<rparr>"

definition register_callback :: "'s TagHandler \<Rightarrow> string \<Rightarrow> 's callback \<Rightarrow> 's TagHandler" where
  "register_callback th tagname tv_callback =
     th\<lparr>handlers := (handlers th)(tagname \<mapsto> tv_callback)\<rparr>"

fun register_callbacks :: "'s TagHandler \<Rightarrow> string list \<Rightarrow> 's callback \<Rightarrow> 's TagHandler" where
  "register_callbacks th [] tv_callback = th"
| "register_callbacks th (tagname # tagnames) tv_callback =
     register_callbacks (register_callback th tagname tv_callback) tagnames tv_callback"

text \<open>\<^verbatim>\<open>self._handlers[k]\<close>: a key that is not there raises \<open>KeyError\<close>.\<close>

definition handler_at :: "'s TagHandler \<Rightarrow> string \<Rightarrow> error + 's callback" where
  "handler_at th k = (case handlers th k of None \<Rightarrow> Inl KeyError | Some cb \<Rightarrow> Inr cb)"

definition get_callback :: "'s TagHandler \<Rightarrow> string \<Rightarrow> error + 's callback" where
  "get_callback th tagname =
     (if handlers th tagname \<noteq> None then handler_at th tagname
      else handler_at th ''unknown'')"

text \<open>\<^verbatim>\<open>sub in s\<close> on strings: \<open>sub\<close> occurs in \<open>s\<close> as a substring.\<close>

primrec str_contains :: "string \<Rightarrow> string \<Rightarrow> bool" where
  "str_contains [] sub = (sub = [])"
| "str_contains (x # xs) sub = (startswith (x # xs) sub \<or> str_contains xs sub)"

text \<open>
  The condition of the \<^verbatim>\<open>if\<close> in \<^verbatim>\<open>_scan\<close>, on whatever value the line parsed to.
  On a string, \<^verbatim>\<open>in\<close> is the substring test and on a list it is membership, and when
  both tests pass \<^verbatim>\<open>obj['tag']\<close> raises \<open>TypeError\<close>; on a number, a boolean or null
  \<^verbatim>\<open>in\<close> itself raises \<open>TypeError\<close>.
\<close>

fun invalid_data :: "json \<Rightarrow> error + bool" where
  "invalid_data (JObj kvs) =
     Inr (map_of kvs ''tag'' = None \<or> map_of kvs ''value'' = None
          \<or> (case map_of kvs ''tag'' of Some (JStr t) \<Rightarrow> False | _ \<Rightarrow> True))"
| "invalid_data (JStr s) =
     (if \<not> str_contains s ''tag'' \<or> \<not> str_contains s ''value'' then Inr True
      else Inl TypeError)"
| "invalid_data (JArr xs) =
     (if JStr ''tag'' \<notin> set xs \<or> JStr ''value'' \<notin> set xs then Inr True
      else Inl TypeError)"
| "invalid_data v = Inl TypeError"

text \<open>
  A line of the file, by what the first two steps of the loop make of it: bytes that
  are not UTF-8, so that \<^verbatim>\<open>decode\<close> raises; text that \<^verbatim>\<open>json.loads\<close> rejects; or the
  value that \<^verbatim>\<open>json.loads\<close> returns.
\<close>

datatype line = Undecodable | Unparsable | Parsed json

text \<open>
  \<^verbatim>\<open>_scan\<close>. The file is the list of its lines. The result is the state the callbacks
  have left and the exception that ended the scan, if one did.
\<close>

fun scan_from :: "nat \<Rightarrow> line list \<Rightarrow> 's TagHandler \<Rightarrow> 's \<Rightarrow> 's \<times> error option" where
  "scan_from line_no [] tag_handler s = (s, None)"
| "scan_from line_no (line # f) tag_handler s =
     (case line of
        Undecodable \<Rightarrow> (s, Some UnicodeDecodeError)
      | Unparsable \<Rightarrow> (s, Some JSONDecodeError)
      | Parsed obj \<Rightarrow>
          (case invalid_data obj of
             Inl e \<Rightarrow> (s, Some e)
           | Inr True \<Rightarrow> (s, Some (InvalidData (line_no + 1)))
           | Inr False \<Rightarrow>
               (case obj of
                  JObj kvs \<Rightarrow>
                    (case (map_of kvs ''tag'', map_of kvs ''value'') of
                       (Some (JStr tag), Some v) \<Rightarrow>
                         (case get_callback tag_handler tag of
                            Inl e \<Rightarrow> (s, Some e)
                          | Inr tv_callback \<Rightarrow>
                              (case tv_callback tag v s of
                                 (s', Some e) \<Rightarrow> (s', Some e)
                               | (s', None) \<Rightarrow> scan_from (line_no + 1) f tag_handler s'))
                     | _ \<Rightarrow> (s, Some KeyError))
                | _ \<Rightarrow> (s, Some TypeError))))"

definition scan :: "line list \<Rightarrow> 's TagHandler \<Rightarrow> 's \<Rightarrow> 's \<times> error option" where
  "scan f tag_handler s = scan_from 0 f tag_handler s"

text \<open>
  What the claims say of a line, in their words: it is a record with tag \<open>tag\<close> and
  value \<open>v\<close> when it parsed to an object whose \<open>tag\<close> member is that string and whose
  \<open>value\<close> member is \<open>v\<close>. The callback a handler table has for a tag is the one
  registered under it, or else the one registered under \<open>'unknown'\<close>.
\<close>

fun is_record :: "line \<Rightarrow> string \<times> json \<Rightarrow> bool" where
  "is_record (Parsed (JObj kvs)) (tag, v) =
     (map_of kvs ''tag'' = Some (JStr tag) \<and> map_of kvs ''value'' = Some v)"
| "is_record line (tag, v) = False"

definition callback_for :: "'s TagHandler \<Rightarrow> string \<Rightarrow> 's callback" where
  "callback_for th tag =
     (case handlers th tag of
        Some cb \<Rightarrow> cb
      | None \<Rightarrow> (case handlers th ''unknown'' of Some cb \<Rightarrow> cb | None \<Rightarrow> ignore_tag))"

definition invoke :: "'s TagHandler \<Rightarrow> string \<times> json \<Rightarrow> 's \<Rightarrow> 's" where
  "invoke th r s = fst (callback_for th (fst r) (fst r) (snd r) s)"

text \<open>A callback that appends its arguments to the state: the state lists the invocations.\<close>

definition record_call :: "(string \<times> json) list callback" where
  "record_call tag v s = (s @ [(tag, v)], None)"

section \<open>Events and the WorkHistory\<close>

text \<open>
  An event is an object of one of the four classes; of its properties, the model keeps
  the ones the WorkHistory reads: \<open>editid\<close> and \<open>snapids\<close> with whether the event has
  them, and \<open>ts\<close>, which the constructors make sure of. \<open>editid\<close> and \<open>ts\<close> are Python
  integers, \<open>ts\<close> the milliseconds since the epoch that \<^verbatim>\<open>_fix_ts\<close> leaves or computes;
  an event whose file gives one of them as a float is not an event of this model.
  Snapshot ids are of any type \<open>'i\<close>.
\<close>

datatype event_class = Edit | Submission | Compilation | TestResults

record 'i event =
  event_class :: event_class
  editid :: "int option"
  ts :: int
  snapids :: "'i list option"

definition compare_events :: "'i event \<Rightarrow> 'i event \<Rightarrow> int" where
  "compare_events a b =
     (case (editid a, editid b) of
        (Some ea, Some eb) \<Rightarrow> (let cmp = ea - eb in if cmp \<noteq> 0 then cmp else ts a - ts b)
      | _ \<Rightarrow> ts a - ts b)"

text \<open>
  \<^verbatim>\<open>functools.cmp_to_key\<close> wraps each element in a key whose \<open><\<close> is \<open>mycmp a b < 0\<close>,
  and \<^verbatim>\<open>list.sort\<close> compares the keys with \<open><\<close> only.
\<close>

definition cmp_to_key :: "('a \<Rightarrow> 'a \<Rightarrow> int) \<Rightarrow> 'a \<Rightarrow> 'a \<Rightarrow> bool" where
  "cmp_to_key mycmp a b = (mycmp a b < 0)"

text \<open>
  \<^verbatim>\<open>list.sort\<close> is the interpreter's sort (\<^verbatim>\<open>listsort\<close> of CPython, here as in version
  3.11). On a list of fewer than 64 elements it takes the run the list begins with,
  either one in which no element is less than the one before it, or one in which every
  element is less than the one before it, which it reverses (\<^verbatim>\<open>count_run\<close>); then it
  inserts the remaining elements one after the other into the sorted part, at the place
  a binary search finds (\<^verbatim>\<open>binarysort\<close>). \<open>list_sort\<close> is that procedure.

  On 64 or more elements the interpreter cuts the list into several such runs and
  merges them. Where \<open><\<close> orders the elements of the list consistently, the result is
  the one stable sorted arrangement of the list, which \<open>list_sort\<close> returns as well.
  Where it does not, \<open>list_sort\<close> is not the list the merges produce; what is stated
  below about the order of sorted events is stated for lists in one of the first two
  cases.
\<close>

primrec run_len :: "('a \<Rightarrow> 'a \<Rightarrow> bool) \<Rightarrow> 'a \<Rightarrow> 'a list \<Rightarrow> nat" where
  "run_len continues prev [] = 0"
| "run_len continues prev (x # xs) =
     (if continues prev x then Suc (run_len continues x xs) else 0)"

fun count_run :: "('a \<Rightarrow> 'a \<Rightarrow> bool) \<Rightarrow> 'a list \<Rightarrow> nat \<times> bool" where
  "count_run lt [] = (0, False)"
| "count_run lt [x] = (1, False)"
| "count_run lt (x # y # xs) =
     (if lt y x then (2 + run_len (\<lambda>prev cur. lt cur prev) y xs, True)
      else (2 + run_len (\<lambda>prev cur. \<not> lt cur prev) y xs, False))"

text \<open>
  The binary search of \<^verbatim>\<open>binarysort\<close> for the place of \<open>pivot\<close> in the sorted part \<open>a\<close>,
  with its bounds \<open>l\<close> and \<open>r\<close>.
\<close>

function bisect :: "('a \<Rightarrow> 'a \<Rightarrow> bool) \<Rightarrow> 'a \<Rightarrow> 'a list \<Rightarrow> nat \<Rightarrow> nat \<Rightarrow> nat" where
  "bisect lt pivot a l r =
     (if l < r then
        (let p = l + (r - l) div 2
         in if lt pivot (a ! p) then bisect lt pivot a l p else bisect lt pivot a (p + 1) r)
      else l)"
  by pat_completeness auto
termination
  by (relation "measure (\<lambda>(lt, pivot, a, l, r). r - l)") auto

declare bisect.simps [simp del]

fun binarysort :: "('a \<Rightarrow> 'a \<Rightarrow> bool) \<Rightarrow> 'a list \<Rightarrow> 'a list \<Rightarrow> 'a list" where
  "binarysort lt sorted_part [] = sorted_part"
| "binarysort lt sorted_part (pivot # rest) =
     (let l = bisect lt pivot sorted_part 0 (length sorted_part)
      in binarysort lt (take l sorted_part @ pivot # drop l sorted_part) rest)"

definition list_sort :: "('a \<Rightarrow> 'a \<Rightarrow> bool) \<Rightarrow> 'a list \<Rightarrow> 'a list" where
  "list_sort lt xs =
     (if length xs < 2 then xs
      else (case count_run lt xs of
              (n, descending) \<Rightarrow>
                binarysort lt (if descending then rev (take n xs) else take n xs)
                  (drop n xs)))"

definition sort_events :: "'i event list \<Rightarrow> 'i event list" where
  "sort_events evs = list_sort (cmp_to_key compare_events) evs"

text \<open>
  The WorkHistory. \<open>file_events\<close> stands for the file behind \<open>_filename\<close>: the events
  that the scan of it appends, in the order of its lines.
\<close>

record 'i WorkHistory =
  events :: "'i event list"
  assign_num :: int
  student_num :: int
  loaded :: bool
  sortworkhistory :: bool

definition new_WorkHistory :: "int \<Rightarrow> int \<Rightarrow> bool \<Rightarrow> 'i WorkHistory" where
  "new_WorkHistory a st srt =
     \<lparr>events = [], assign_num = a, student_num = st, loaded = False, sortworkhistory = srt\<rparr>"

definition read_work_history :: "'i WorkHistory \<Rightarrow> 'i event list \<Rightarrow> 'i WorkHistory" where
  "read_work_history wh file_events =
     (let wh1 = wh\<lparr>events := events wh @ file_events\<rparr>
      in if sortworkhistory wh1 then wh1\<lparr>events := sort_events (events wh1)\<rparr> else wh1)"

definition load_events :: "'i WorkHistory \<Rightarrow> 'i event list \<Rightarrow> 'i WorkHistory" where
  "load_events wh file_events =
     (if \<not> loaded wh then (read_work_history wh file_events)\<lparr>loaded := True\<rparr> else wh)"

text \<open>The loop of \<^verbatim>\<open>find_edit_events_with_snapid\<close>, with its \<open>result\<close> list.\<close>

fun find_edit_loop :: "'i event list \<Rightarrow> 'i \<Rightarrow> 'i event list \<Rightarrow> 'i event list" where
  "find_edit_loop [] snapid result = result"
| "find_edit_loop (evt # evts) snapid result =
     find_edit_loop evts snapid
       (if event_class evt = Edit
           \<and> (case snapids evt of None \<Rightarrow> False | Some ids \<Rightarrow> snapid \<in> set ids)
        then result @ [evt] else result)"

definition find_edit_events_with_snapid ::
  "'i WorkHistory \<Rightarrow> 'i event list \<Rightarrow> 'i \<Rightarrow> 'i WorkHistory \<times> 'i event list" where
  "find_edit_events_with_snapid wh file_events snapid =
     (let wh1 = load_events wh file_events
      in (wh1, find_edit_loop (events wh1) snapid []))"

definition find_single_edit_event_with_snapid ::
  "'i WorkHistory \<Rightarrow> 'i event list \<Rightarrow> 'i \<Rightarrow> 'i WorkHistory \<times> (error + 'i event option)" where
  "find_single_edit_event_with_snapid wh file_events snapid =
     (case find_edit_events_with_snapid wh file_events snapid of
        (wh1, candidates) \<Rightarrow>
          (wh1,
           if length candidates = 0 then Inr None
           else if length candidates = 1 then Inr (Some (candidates ! 0))
           else Inl MultipleEditEvents))"

text \<open>In the claims' words: an Edit that lists the snapshot id.\<close>

definition edit_with_snapid :: "'i \<Rightarrow> 'i event \<Rightarrow> bool" where
  "edit_with_snapid snapid evt =
     (event_class evt = Edit \<and> (case snapids evt of None \<Rightarrow> False | Some ids \<Rightarrow> snapid \<in> set ids))"

text \<open>
  The rule, in the claims' words: \<open>in_order a b\<close> when the comparison does not put \<open>b\<close>
  before \<open>a\<close>. The rule orders a list of events consistently when it is transitive on
  them.
\<close>

definition in_order :: "'i event \<Rightarrow> 'i event \<Rightarrow> bool" where
  "in_order a b = (compare_events a b \<le> 0)"

definition consistent_on :: "'i event list \<Rightarrow> bool" where
  "consistent_on evs =
     (\<forall>x\<in>set evs. \<forall>y\<in>set evs. \<forall>z\<in>set evs. in_order x y \<and> in_order y z \<longrightarrow> in_order x z)"

section \<open>The two storage backends\<close>

text \<open>
  The archive is the list of the names of its entries, as \<^verbatim>\<open>infolist()\<close> gives them.
  \<open>zip_member\<close> is the part of \<^verbatim>\<open>listdir\<close> that cuts the name to add out of \<open>rest\<close>.
\<close>

definition zip_member :: "string \<Rightarrow> string" where
  "zip_member rest =
     (let first_slash = str_find rest SLASH 0
      in if first_slash > 0 then py_slice rest 0 first_slash else rest)"

fun zip_listdir_loop :: "string list \<Rightarrow> string \<Rightarrow> string set \<Rightarrow> string set" where
  "zip_listdir_loop [] pfx result = result"
| "zip_listdir_loop (fname # infos) pfx result =
     zip_listdir_loop infos pfx
       (if startswith fname pfx then
          (let rest = slice_from fname (int (length pfx))
           in if rest \<noteq> [] then insert (zip_member rest) result else result)
        else result)"

definition zip_listdir :: "string list \<Rightarrow> string \<Rightarrow> string list" where
  "zip_listdir infolist path =
     sorted_list_of_set (zip_listdir_loop infolist (path @ [SLASH]) {})"

text \<open>
  The directory backend hands the path to \<^verbatim>\<open>os.listdir\<close>; \<open>os_listdir\<close> is the host's
  answer, a list in the order the host gives it or an \<open>OSError\<close>.
\<close>

definition dir_listdir :: "(string \<Rightarrow> error + string list) \<Rightarrow> string \<Rightarrow> string \<Rightarrow> error + string list" where
  "dir_listdir os_listdir basedir path = os_listdir (basedir @ [SLASH] @ path)"

section \<open>Facts about the string operations\<close>

lemma first_index_found: "c \<notin> set l \<Longrightarrow> first_index c (l @ c # r) = int (length l)"
  by (induction l) (auto simp: Let_def)

lemma first_index_absent: "c \<notin> set l \<Longrightarrow> first_index c l = - 1"
  by (induction l) (auto simp: Let_def)

lemma str_find_found:
  "c \<notin> set l \<Longrightarrow> str_find (pre @ l @ c # r) c (int (length pre)) = int (length pre + length l)"
  by (simp add: str_find_def slice_index_def first_index_found)

lemma str_find_absent:
  "c \<notin> set l \<Longrightarrow> str_find (pre @ l) c (int (length pre)) = - 1"
  by (simp add: str_find_def slice_index_def first_index_absent)

lemma endswith_single: "endswith s [c] = (s \<noteq> [] \<and> last s = c)"
proof (cases s rule: rev_cases)
  case Nil
  then show ?thesis by (simp add: endswith_def)
next
  case (snoc ys y)
  then show ?thesis by (simp add: endswith_def)
qed

lemma slice_to_butlast: "s \<noteq> [] \<Longrightarrow> slice_to s (int (length s) - 1) = butlast s"
  by (cases s rule: rev_cases) (auto simp: slice_to_def slice_index_def)

lemma slice_index_in_range: "0 \<le> i \<Longrightarrow> i \<le> int n \<Longrightarrow> slice_index n i = nat i"
  by (simp add: slice_index_def)

section \<open>Facts about the row and line loops\<close>

text \<open>
  The loop of \<open>_get_pos\<close>, started at the end of \<open>pre\<close> with \<open>n\<close> rows still to skip,
  stops behind a stretch \<open>mid\<close> of exactly \<open>n\<close> newline-terminated lines.
\<close>

lemma skip_rows_split:
  "count_list mid NL = n \<Longrightarrow> mid = [] \<or> last mid = NL \<Longrightarrow>
   skip_rows (pre @ mid @ rest) (atrow + int n) atrow (int (length pre))
     = Inr (int (length pre + length mid))"
proof (induction n arbitrary: pre mid atrow)
  case 0
  then have "mid = []"
    by (metis count_list_0_iff last_in_set)
  then show ?case by (simp add: skip_rows.simps)
next
  case (Suc n)
  then have "NL \<in> set mid" by (metis count_list_0_iff nat.simps(3))
  then obtain l mid' where sp: "mid = l @ NL # mid'" "NL \<notin> set l"
    by (meson split_list_first)
  have c: "count_list mid' NL = n"
    using Suc.prems(1) sp by (simp add: count_list_0_iff)
  have e: "mid' = [] \<or> last mid' = NL"
    using Suc.prems(2) sp by (auto split: if_splits)
  have f: "str_find (pre @ mid @ rest) NL (int (length pre)) = int (length pre + length l)"
    using str_find_found[OF sp(2), of pre "mid' @ rest"] sp by simp
  have "skip_rows ((pre @ l @ [NL]) @ mid' @ rest) ((atrow + 1) + int n) (atrow + 1)
          (int (length (pre @ l @ [NL])))
      = Inr (int (length (pre @ l @ [NL]) + length mid'))"
    by (rule Suc.IH[OF c e])
  then show ?case
    using f sp by (subst skip_rows.simps) (simp add: Let_def add.commute add.left_commute)
qed

text \<open>The generator yields one chunk per newline, and one more for an unterminated rest.\<close>

lemma line_chunks_from_split:
  "length (line_chunks_from (pre @ rest) (int (length pre))) =
     count_list rest NL + (if rest \<noteq> [] \<and> last rest \<noteq> NL then 1 else 0)"
proof (induction "length rest" arbitrary: pre rest rule: less_induct)
  case less
  show ?case
  proof (cases "rest = []")
    case True
    then show ?thesis by (subst line_chunks_from.simps) simp
  next
    case ne: False
    show ?thesis
    proof (cases "NL \<in> set rest")
      case False
      then have "str_find (pre @ rest) NL (int (length pre)) = - 1"
        by (rule str_find_absent)
      moreover have "last rest \<noteq> NL" using False ne last_in_set by metis
      ultimately show ?thesis using ne False
        by (subst line_chunks_from.simps) (simp add: count_list_0_iff)
    next
      case True
      then obtain l r where sp: "rest = l @ NL # r" "NL \<notin> set l"
        by (meson split_list_first)
      have f: "str_find (pre @ rest) NL (int (length pre)) = int (length pre + length l)"
        using str_find_found[OF sp(2), of pre r] sp by simp
      have "length r < length rest" using sp by simp
      from less[OF this, of "pre @ l @ [NL]"]
      have ih: "length (line_chunks_from (pre @ rest) (int (length pre + length l) + 1)) =
           count_list r NL + (if r \<noteq> [] \<and> last r \<noteq> NL then 1 else 0)"
        using sp by (simp add: add.commute add.left_commute)
      show ?thesis using ne f ih sp
        by (subst line_chunks_from.simps) (simp add: Let_def count_list_0_iff)
    qed
  qed
qed

text \<open>
  On every buffer that is not empty, \<open>get_num_lines\<close> is the number of lines that
  \<open>_line_chunks\<close> yields, the lines \<open>get_line\<close> can return.
\<close>

lemma get_num_lines_chunks:
  "doc_text d \<noteq> [] \<Longrightarrow> get_num_lines d = int (length (line_chunks (doc_text d)))"
  using line_chunks_from_split[of "[]" "doc_text d"]
  by (simp add: get_num_lines_def line_chunks_def endswith_single str_count_def)

lemma skip_rows_row_start:
  assumes "is_row_start txt row p"
  shows "skip_rows txt (int row) 0 0 = Inr (int p)"
proof -
  have c: "count_list (take p txt) NL = row" and le: "p \<le> length txt"
    using assms by (simp_all add: is_row_start_def)
  have l: "take p txt = [] \<or> last (take p txt) = NL"
  proof (cases "p = 0")
    case True
    then show ?thesis by simp
  next
    case False
    then have "txt ! (p - 1) = NL" using assms by (simp add: is_row_start_def)
    moreover have ne: "take p txt \<noteq> []"
      using False le by auto
    have "last (take p txt) = txt ! (p - 1)"
      using False le by (simp add: last_conv_nth[OF ne] min_absorb2)
    ultimately show ?thesis by simp
  qed
  from skip_rows_split[OF c l, of "[]" "drop p txt" 0] le show ?thesis by simp
qed

section \<open>Deleting from a TextDocument\<close>

lemma delete_at_within:
  assumes "get_pos d row col = Inr pos"
    and "pos + int (length t) \<le> int (length (doc_text d))"
  shows "delete_at d row col t = delete_range True d pos (pos + int (length t)) t"
  using assms by (simp add: delete_at_def delete_at_with_def VERIFY_DELETES_def Let_def)

lemma delete_at_one_beyond:
  assumes "get_pos d row col = Inr pos"
    and "pos + int (length txt) = int (length (doc_text d)) + 1"
    and "txt \<noteq> []" and "last txt = NL"
  shows "delete_at d row col txt
           = delete_range True d pos (int (length (doc_text d))) (butlast txt)"
  using assms
  by (simp add: delete_at_def delete_at_with_def VERIFY_DELETES_def Let_def endswith_single
      slice_to_butlast)

lemma butlast_end_offset:
  assumes "pos + int (length txt) = int (length (doc_text d)) + 1" and "txt \<noteq> []"
  shows "pos + int (length (butlast txt)) = int (length (doc_text d))"
proof -
  have "int (length (butlast txt)) = int (length txt) - 1"
    using assms(2) by (simp add: of_nat_diff Suc_leI)
  then show ?thesis using assms(1) by linarith
qed

lemma delete_range_in_range:
  assumes "0 \<le> pos" "pos + int (length t) \<le> int (length (doc_text d))"
  shows "delete_range True d pos (pos + int (length t)) t =
     (if take (length t) (drop (nat pos) (doc_text d)) = t
      then Inr (d\<lparr>doc_text := take (nat pos) (doc_text d) @ drop (nat pos + length t) (doc_text d)\<rparr>)
      else Inl (DeleteMismatch t (take (length t) (drop (nat pos) (doc_text d)))))"
proof -
  have a: "slice_index (length (doc_text d)) pos = nat pos"
    using assms by (simp add: slice_index_def)
  have b: "slice_index (length (doc_text d)) (pos + int (length t)) = nat pos + length t"
    using assms by (simp add: slice_index_def nat_add_distrib)
  show ?thesis
    by (simp add: delete_range_def py_slice_def slice_to_def slice_from_def a b Let_def)
qed

text \<open>
  Claim C1. Let \<open>pos\<close> be the offset that \<open>(row, col)\<close> resolves to. When
  \<open>pos + length txt\<close> is one more than the length of the buffer and \<open>txt\<close> ends with a
  newline, \<open>delete_at\<close> goes on with the end offset at the end of the buffer and with
  \<open>txt\<close> without its last character: it does exactly what the deletion of
  \<open>butlast txt\<close> at the same place does. In every other case in which the end offset
  is beyond the end of the buffer, it fails with the deletion-beyond-end error. On the
  buffer \<open>"\ndef"\<close>, deleting \<open>"def\n"\<close> at \<open>(1, 0)\<close> leaves \<open>"\n"\<close>.
\<close>

theorem delete_at_trailing_newline:
  assumes "get_pos d row col = Inr pos"
  shows "(pos + int (length txt) = int (length (doc_text d)) + 1 \<and> txt \<noteq> [] \<and> last txt = NL \<longrightarrow>
            delete_at d row col txt = delete_at d row col (butlast txt)
          \<and> delete_at d row col txt = delete_range True d pos (int (length (doc_text d))) (butlast txt))
       \<and> (pos + int (length txt) > int (length (doc_text d))
            \<and> \<not> (pos + int (length txt) = int (length (doc_text d)) + 1 \<and> txt \<noteq> [] \<and> last txt = NL) \<longrightarrow>
            delete_at d row col txt
              = Inl (DeletionBeyondEnd (pos + int (length txt)) (length (doc_text d))))
       \<and> delete_at \<lparr>doc_text = NL # ''def''\<rparr> 1 0 (''def'' @ [NL]) = Inr \<lparr>doc_text = [NL]\<rparr>"
proof (intro conjI impI)
  assume h: "pos + int (length txt) = int (length (doc_text d)) + 1 \<and> txt \<noteq> [] \<and> last txt = NL"
  show r: "delete_at d row col txt = delete_range True d pos (int (length (doc_text d))) (butlast txt)"
    using delete_at_one_beyond[OF assms] h by blast
  have e: "pos + int (length (butlast txt)) = int (length (doc_text d))"
    using butlast_end_offset h by blast
  then have "pos + int (length (butlast txt)) \<le> int (length (doc_text d))" by linarith
  from delete_at_within[OF assms this]
  have "delete_at d row col (butlast txt)
          = delete_range True d pos (int (length (doc_text d))) (butlast txt)"
    by (simp only: e)
  with r show "delete_at d row col txt = delete_at d row col (butlast txt)" by simp
next
  assume "pos + int (length txt) > int (length (doc_text d))
            \<and> \<not> (pos + int (length txt) = int (length (doc_text d)) + 1 \<and> txt \<noteq> [] \<and> last txt = NL)"
  then show "delete_at d row col txt
              = Inl (DeletionBeyondEnd (pos + int (length txt)) (length (doc_text d)))"
    using assms
    by (auto simp add: delete_at_def delete_at_with_def VERIFY_DELETES_def Let_def endswith_single)
next
  show "delete_at \<lparr>doc_text = NL # ''def''\<rparr> 1 0 (''def'' @ [NL]) = Inr \<lparr>doc_text = [NL]\<rparr>"
    by code_simp
qed

theorem delete_at_trailing_newline_witness:
  "get_pos \<lparr>doc_text = NL # ''def''\<rparr> 1 0 = Inr 1
   \<and> delete_at \<lparr>doc_text = NL # ''def''\<rparr> 1 0 (''def'' @ [NL])
       = delete_at \<lparr>doc_text = NL # ''def''\<rparr> 1 0 ''def''
   \<and> get_pos \<lparr>doc_text = ''abc''\<rparr> 0 2 = Inr 2
   \<and> delete_at \<lparr>doc_text = ''abc''\<rparr> 0 2 ''cde'' = Inl (DeletionBeyondEnd 5 3)"
proof -
  have g: "get_pos \<lparr>doc_text = NL # ''def''\<rparr> 1 0 = Inr 1"
    by code_simp
  have k: "get_pos \<lparr>doc_text = ''abc''\<rparr> 0 2 = Inr 2"
    by code_simp
  show ?thesis
    using g k delete_at_trailing_newline[OF g, of "''def'' @ [NL]"]
      delete_at_trailing_newline[OF k, of "''cde''"]
    by simp
qed

text \<open>
  Claim C2. Let \<open>(row, col)\<close> resolve to an offset \<open>pos \<ge> 0\<close>, and let \<open>t\<close> be the
  text that is expected at \<open>pos\<close>: \<open>txt\<close> itself when \<open>pos + length txt\<close> is within the
  buffer, and \<open>txt\<close> without its trailing newline in the one case of the exception. Then
  \<open>delete_at\<close> fails with the delete-mismatch error, reporting \<open>t\<close> and the slice, if and
  only if the slice of the buffer from \<open>pos\<close> to \<open>pos + length t\<close> differs from \<open>t\<close>;
  when they are equal it succeeds and the slice is gone from the buffer.
\<close>

theorem delete_at_mismatch_iff:
  assumes "get_pos d row col = Inr pos" and "0 \<le> pos"
    and "pos + int (length txt) \<le> int (length (doc_text d)) \<and> t = txt
       \<or> pos + int (length txt) = int (length (doc_text d)) + 1 \<and> txt \<noteq> [] \<and> last txt = NL
           \<and> t = butlast txt"
  shows "delete_at d row col txt =
           (if take (length t) (drop (nat pos) (doc_text d)) = t
            then Inr (d\<lparr>doc_text := take (nat pos) (doc_text d)
                                      @ drop (nat pos + length t) (doc_text d)\<rparr>)
            else Inl (DeleteMismatch t (take (length t) (drop (nat pos) (doc_text d)))))
       \<and> ((\<exists>a b. delete_at d row col txt = Inl (DeleteMismatch a b))
            \<longleftrightarrow> take (length t) (drop (nat pos) (doc_text d)) \<noteq> t)"
proof -
  have "delete_at d row col txt = delete_range True d pos (pos + int (length t)) t
      \<and> pos + int (length t) \<le> int (length (doc_text d))"
    using assms(3)
  proof
    assume "pos + int (length txt) \<le> int (length (doc_text d)) \<and> t = txt"
    then show ?thesis using delete_at_within[OF assms(1)] by blast
  next
    assume h: "pos + int (length txt) = int (length (doc_text d)) + 1 \<and> txt \<noteq> [] \<and> last txt = NL
           \<and> t = butlast txt"
    then have e: "pos + int (length t) = int (length (doc_text d))"
      using butlast_end_offset by blast
    have "delete_at d row col txt = delete_range True d pos (int (length (doc_text d))) t"
      using delete_at_one_beyond[OF assms(1)] h by blast
    then show ?thesis using e by simp
  qed
  then have eq: "delete_at d row col txt =
           (if take (length t) (drop (nat pos) (doc_text d)) = t
            then Inr (d\<lparr>doc_text := take (nat pos) (doc_text d)
                                      @ drop (nat pos + length t) (doc_text d)\<rparr>)
            else Inl (DeleteMismatch t (take (length t) (drop (nat pos) (doc_text d)))))"
    using delete_range_in_range[OF assms(2)] by simp
  show ?thesis using eq by simp
qed

theorem delete_at_mismatch_iff_witness:
  "get_pos \<lparr>doc_text = ''abcdef''\<rparr> 0 2 = Inr 2
   \<and> delete_at \<lparr>doc_text = ''abcdef''\<rparr> 0 2 ''cd'' = Inr \<lparr>doc_text = ''abef''\<rparr>
   \<and> delete_at \<lparr>doc_text = ''abcdef''\<rparr> 0 2 ''xy'' = Inl (DeleteMismatch ''xy'' ''cd'')
   \<and> delete_at \<lparr>doc_text = ''abcdef''\<rparr> 0 2 (''cdef'' @ [NL]) = Inr \<lparr>doc_text = ''ab''\<rparr>"
proof -
  have g: "get_pos \<lparr>doc_text = ''abcdef''\<rparr> 0 2 = Inr 2"
    by code_simp
  show ?thesis
    using g delete_at_mismatch_iff[OF g, of "''cd''" "''cd''"]
      delete_at_mismatch_iff[OF g, of "''xy''" "''xy''"]
      delete_at_mismatch_iff[OF g, of "''cdef'' @ [NL]" "''cdef''"]
    by simp
qed

section \<open>Counting lines\<close>

text \<open>
  Claim C3. On the empty buffer, the state of every new document, \<open>get_num_lines\<close>
  returns \<open>1\<close>, although the buffer has no newline and no text after one; the line
  generator yields no line for it, and \<open>get_line\<close> has no line \<open>0\<close> to return. On every
  other buffer the count is the number of lines the generator yields
  (\<open>get_num_lines_chunks\<close>).
\<close>

theorem get_num_lines_empty_document:
  "get_num_lines new_document = 1 \<and> line_chunks (doc_text new_document) = []
     \<and> get_line new_document 0 = Inl (NoSuchLine 0)"
  by code_simp

section \<open>Resolving a position\<close>

text \<open>
  Claim C9. When \<open>p\<close> is the offset of the first character of row \<open>row\<close>, the position
  \<open>(row, col)\<close> resolves to \<open>p + col\<close> whenever that is not beyond the end of the
  buffer, and fails with the out-of-bounds error otherwise: the length of the row plays
  no part. On the buffer \<open>"ab\ncd"\<close>, whose line \<open>0\<close> is \<open>"ab\n"\<close>, the position
  \<open>(0, 4)\<close> resolves to offset \<open>4\<close>, inside line \<open>1\<close>, and an insertion or a deletion
  there changes line \<open>1\<close>.
\<close>

theorem get_pos_unchecked_column:
  assumes "is_row_start (doc_text d) row p"
  shows "get_pos d (int row) col =
           (if int p + col > int (length (doc_text d))
            then Inl (PositionOutOfBounds (int row) col (int p + col) (length (doc_text d)))
            else Inr (int p + col))
       \<and> get_line \<lparr>doc_text = ''ab'' @ [NL] @ ''cd''\<rparr> 0 = Inr (''ab'' @ [NL])
       \<and> get_pos \<lparr>doc_text = ''ab'' @ [NL] @ ''cd''\<rparr> 0 4 = Inr 4
       \<and> insert_at \<lparr>doc_text = ''ab'' @ [NL] @ ''cd''\<rparr> 0 4 ''X''
           = Inr \<lparr>doc_text = ''ab'' @ [NL] @ ''cXd''\<rparr>
       \<and> delete_at \<lparr>doc_text = ''ab'' @ [NL] @ ''cd''\<rparr> 0 4 ''d''
           = Inr \<lparr>doc_text = ''ab'' @ [NL] @ ''c''\<rparr>"
proof (intro conjI)
  show "get_pos d (int row) col =
           (if int p + col > int (length (doc_text d))
            then Inl (PositionOutOfBounds (int row) col (int p + col) (length (doc_text d)))
            else Inr (int p + col))"
    using skip_rows_row_start[OF assms] by (simp add: get_pos_def Let_def)
qed code_simp+

theorem get_pos_unchecked_column_witness:
  "is_row_start (''ab'' @ [NL] @ ''cd'') 1 3
   \<and> get_pos \<lparr>doc_text = ''ab'' @ [NL] @ ''cd''\<rparr> 1 2 = Inr 5
   \<and> get_pos \<lparr>doc_text = ''ab'' @ [NL] @ ''cd''\<rparr> 1 3
       = Inl (PositionOutOfBounds 1 3 6 5)"
proof -
  have r: "is_row_start (doc_text \<lparr>doc_text = ''ab'' @ [NL] @ ''cd''\<rparr>) 1 3"
    by (simp add: is_row_start_def NL_def)
  show ?thesis
    using r get_pos_unchecked_column[OF r, of 2] get_pos_unchecked_column[OF r, of 3]
    by simp
qed

section \<open>The tagged-record scanner\<close>

lemma get_callback_callback_for:
  "handlers th ''unknown'' \<noteq> None \<Longrightarrow> get_callback th tag = Inr (callback_for th tag)"
  by (auto simp: get_callback_def handler_at_def callback_for_def split: option.splits)

lemma invalid_data_record:
  "map_of kvs ''tag'' = Some (JStr tag) \<Longrightarrow> map_of kvs ''value'' = Some v \<Longrightarrow>
   invalid_data (JObj kvs) = Inr False"
  by simp

lemma invalid_data_malformed:
  "map_of kvs ''tag'' = None \<or> map_of kvs ''value'' = None
     \<or> (\<forall>t. map_of kvs ''tag'' \<noteq> Some (JStr t)) \<Longrightarrow>
   invalid_data (JObj kvs) = Inr True"
  by (auto split: option.splits json.splits)

lemma scan_from_step:
  assumes "is_record line (tag, v)" and "handlers th ''unknown'' \<noteq> None"
    and "snd (callback_for th tag tag v s) = None"
  shows "scan_from n (line # f) th s = scan_from (n + 1) f th (invoke th (tag, v) s)"
proof -
  obtain kvs where l: "line = Parsed (JObj kvs)"
    and t: "map_of kvs ''tag'' = Some (JStr tag)" and vv: "map_of kvs ''value'' = Some v"
    using assms(1) by (cases "(line, (tag, v))" rule: is_record.cases) auto
  obtain s' where c: "callback_for th tag tag v s = (s', None)"
    using assms(3) by (cases "callback_for th tag tag v s") auto
  show ?thesis
    using l t vv c get_callback_callback_for[OF assms(2), of tag]
    by (simp add: invoke_def)
qed

lemma scan_from_records:
  assumes "list_all2 is_record lines recs" and "handlers th ''unknown'' \<noteq> None"
    and "\<forall>r\<in>set recs. \<forall>s. snd (callback_for th (fst r) (fst r) (snd r) s) = None"
  shows "scan_from n (lines @ f) th s = scan_from (n + length lines) f th (fold (invoke th) recs s)"
  using assms(1,3)
proof (induction lines recs arbitrary: n s rule: list_all2_induct)
  case Nil
  then show ?case by simp
next
  case (Cons line lines r recs)
  obtain tag v where r: "r = (tag, v)" by (cases r)
  have "scan_from n ((line # lines) @ f) th s
      = scan_from (n + 1) (lines @ f) th (invoke th (tag, v) s)"
    using scan_from_step[of line tag v th s n "lines @ f"] Cons.hyps(1) Cons.prems assms(2) r
    by simp
  also have "\<dots> = scan_from (n + 1 + length lines) f th (fold (invoke th) recs (invoke th (tag, v) s))"
    using Cons.IH Cons.prems by simp
  finally show ?case using r by simp
qed

text \<open>
  Let the lines of a file be records, line by line the records \<open>recs\<close>, let the handler
  table have its \<open>'unknown'\<close> entry, as every constructed table has, and let the
  callbacks return. Then the scan returns without an error, and its effect is that of
  invoking, for each record in the order of the file, the callback of its tag once with
  the tag and the value. When an object follows in which \<open>tag\<close> or \<open>value\<close> is missing
  or \<open>tag\<close> is not a string, the scan ends with the invalid-data error that carries the
  number of that line, counted from one, and the state is the one the records before it
  have left: no line after it is looked at.
\<close>

lemma scan_dispatches_each_record:
  assumes "list_all2 is_record lines recs"
    and "handlers th ''unknown'' \<noteq> None"
    and "\<forall>r\<in>set recs. \<forall>s. snd (callback_for th (fst r) (fst r) (snd r) s) = None"
  shows "scan lines th s = (fold (invoke th) recs s, None)
       \<and> (map_of kvs ''tag'' = None \<or> map_of kvs ''value'' = None
            \<or> (\<forall>t. map_of kvs ''tag'' \<noteq> Some (JStr t)) \<longrightarrow>
          scan (lines @ Parsed (JObj kvs) # rest) th s
            = (fold (invoke th) recs s, Some (InvalidData (length lines + 1))))"
proof (intro conjI impI)
  show "scan lines th s = (fold (invoke th) recs s, None)"
    using scan_from_records[OF assms, of 0 "[]" s] by (simp add: scan_def)
next
  assume "map_of kvs ''tag'' = None \<or> map_of kvs ''value'' = None
            \<or> (\<forall>t. map_of kvs ''tag'' \<noteq> Some (JStr t))"
  then have "invalid_data (JObj kvs) = Inr True" by (rule invalid_data_malformed)
  then show "scan (lines @ Parsed (JObj kvs) # rest) th s
            = (fold (invoke th) recs s, Some (InvalidData (length lines + 1)))"
    using scan_from_records[OF assms, of 0 "Parsed (JObj kvs) # rest" s] by (simp add: scan_def)
qed

lemma scan_dispatches_each_record_example:
  "scan [Parsed (JObj [(''tag'', JStr ''edit''), (''value'', JNum 1)]),
         Parsed (JObj [(''value'', JNum 2), (''tag'', JStr ''other'')])]
        (register_callback (new_TagHandler [''edit'' \<mapsto> record_call]) ''unknown'' record_call) []
      = ([(''edit'', JNum 1), (''other'', JNum 2)], None)
   \<and> scan ([Parsed (JObj [(''tag'', JStr ''edit''), (''value'', JNum 1)]),
            Parsed (JObj [(''value'', JNum 2), (''tag'', JStr ''other'')])]
           @ Parsed (JObj [(''tag'', JNum 3), (''value'', JNum 3)])
           # [Parsed (JObj [(''tag'', JStr ''edit''), (''value'', JNum 4)])])
        (register_callback (new_TagHandler [''edit'' \<mapsto> record_call]) ''unknown'' record_call) []
      = ([(''edit'', JNum 1), (''other'', JNum 2)], Some (InvalidData 3))"
proof -
  let ?th = "register_callback (new_TagHandler [''edit'' \<mapsto> record_call]) ''unknown'' record_call"
  let ?lines = "[Parsed (JObj [(''tag'', JStr ''edit''), (''value'', JNum 1)]),
         Parsed (JObj [(''value'', JNum 2), (''tag'', JStr ''other'')])]"
  let ?recs = "[(''edit'', JNum 1), (''other'', JNum 2)]"
  have a: "list_all2 is_record ?lines ?recs" by simp
  have b: "handlers ?th ''unknown'' \<noteq> None"
    by (simp add: register_callback_def)
  have c: "\<forall>r\<in>set ?recs. \<forall>s. snd (callback_for ?th (fst r) (fst r) (snd r) s) = None"
    by (simp add: register_callback_def new_TagHandler_def callback_for_def record_call_def)
  have d: "fold (invoke ?th) ?recs [] = ?recs"
    by (simp add: invoke_def register_callback_def new_TagHandler_def callback_for_def
        record_call_def)
  show ?thesis
    using scan_dispatches_each_record[OF a b c, of "[]" "[(''tag'', JNum 3), (''value'', JNum 3)]"
        "[Parsed (JObj [(''tag'', JStr ''edit''), (''value'', JNum 4)])]"] d
    by simp
qed

text \<open>
  Claim C6. A line that parses to a number, to null or to a boolean has no \<open>tag\<close> and
  no \<open>value\<close>. There the scan does not end with the invalid-data error and the number of
  the line: the test for the two fields itself raises \<open>TypeError\<close>, which carries no line
  number. The records before that line have been dispatched and no later line is
  processed. On a line that parses to a string without the two words the same test
  ends the scan with the invalid-data error and the number of the line.
\<close>

theorem scan_line_without_fields:
  "scan (Parsed (JNum n) # rest) th s = (s, Some TypeError)
   \<and> scan (Parsed (JFloat x) # rest) th s = (s, Some TypeError)
   \<and> scan (Parsed JNull # rest) th s = (s, Some TypeError)
   \<and> scan (Parsed (JBool b) # rest) th s = (s, Some TypeError)
   \<and> scan (Parsed (JStr ''abc'') # rest) th s = (s, Some (InvalidData 1))
   \<and> scan [Parsed (JObj [(''tag'', JStr ''edit''), (''value'', JNum 1)]),
            Parsed (JNum 5),
            Parsed (JObj [(''tag'', JStr ''edit''), (''value'', JNum 2)])]
        (new_TagHandler [''edit'' \<mapsto> record_call]) []
      = ([(''edit'', JNum 1)], Some TypeError)"
proof (intro conjI)
  show "scan [Parsed (JObj [(''tag'', JStr ''edit''), (''value'', JNum 1)]),
            Parsed (JNum 5),
            Parsed (JObj [(''tag'', JStr ''edit''), (''value'', JNum 2)])]
        (new_TagHandler [''edit'' \<mapsto> record_call]) []
      = ([(''edit'', JNum 1)], Some TypeError)"
    by (simp add: scan_def get_callback_def handler_at_def new_TagHandler_def record_call_def)
qed (simp_all add: scan_def startswith_def)

text \<open>
  Claim C10. The callback for the tag \<open>'unknown'\<close> is the entry of the handler table
  under that name, which is also what every tag without an entry gets. Registering a
  callback under \<open>'unknown'\<close>, with \<open>register_callback\<close> or through the constructor's
  argument, makes it the callback of \<open>'unknown'\<close> and of every tag without an entry;
  without such a registration that callback is the one that ignores the record. A line
  whose tag is \<open>'unknown'\<close> or has no entry is handed to the \<open>'unknown'\<close> entry.
\<close>

theorem unknown_tag_is_fallback:
  "get_callback th ''unknown'' = handler_at th ''unknown''
   \<and> (handlers th tag = None \<longrightarrow> get_callback th tag = get_callback th ''unknown'')
   \<and> (handlers th tag = None \<or> tag = ''unknown'' \<longrightarrow>
        get_callback (register_callback th ''unknown'' cb) tag = Inr cb)
   \<and> (callbacks tag = None \<or> tag = ''unknown'' \<longrightarrow>
        get_callback (new_TagHandler callbacks) tag
          = Inr (case callbacks ''unknown'' of Some cb' \<Rightarrow> cb' | None \<Rightarrow> ignore_tag))
   \<and> (handlers th ''unknown'' = Some cb \<and> (handlers th tag = None \<or> tag = ''unknown'')
        \<and> is_record line (tag, v) \<longrightarrow> scan [line] th s = cb tag v s)"
proof (intro conjI impI)
  show "get_callback th ''unknown'' = handler_at th ''unknown''"
    by (simp add: get_callback_def)
  show "get_callback th tag = get_callback th ''unknown''" if "handlers th tag = None"
    using that by (simp add: get_callback_def)
  show "get_callback (register_callback th ''unknown'' cb) tag = Inr cb"
    if "handlers th tag = None \<or> tag = ''unknown''"
    using that by (auto simp: get_callback_def register_callback_def handler_at_def)
  show "get_callback (new_TagHandler callbacks) tag
          = Inr (case callbacks ''unknown'' of Some cb' \<Rightarrow> cb' | None \<Rightarrow> ignore_tag)"
    if "callbacks tag = None \<or> tag = ''unknown''"
    using that
    by (auto simp: get_callback_def new_TagHandler_def handler_at_def map_add_def
        split: option.splits)
  show "scan [line] th s = cb tag v s"
    if h: "handlers th ''unknown'' = Some cb \<and> (handlers th tag = None \<or> tag = ''unknown'')
        \<and> is_record line (tag, v)"
  proof -
    obtain kvs where l: "line = Parsed (JObj kvs)"
      and t: "map_of kvs ''tag'' = Some (JStr tag)" and vv: "map_of kvs ''value'' = Some v"
      using h by (cases "(line, (tag, v))" rule: is_record.cases) auto
    have g: "get_callback th tag = Inr cb"
      using h by (auto simp: get_callback_def handler_at_def)
    show ?thesis
      using l t vv g by (cases "cb tag v s") (auto simp: scan_def split: option.splits)
  qed
qed

theorem unknown_tag_is_fallback_witness:
  "get_callback (register_callback (new_TagHandler [''edit'' \<mapsto> ignore_tag]) ''unknown'' record_call)
      ''compilation'' = Inr record_call
   \<and> get_callback (register_callback (new_TagHandler [''edit'' \<mapsto> ignore_tag]) ''unknown'' record_call)
      ''unknown'' = Inr record_call
   \<and> scan [Parsed (JObj [(''tag'', JStr ''unknown''), (''value'', JNum 7)])]
        (new_TagHandler [''unknown'' \<mapsto> record_call]) [] = ([(''unknown'', JNum 7)], None)
   \<and> scan [Parsed (JObj [(''tag'', JStr ''compilation''), (''value'', JNum 8)])]
        (new_TagHandler [''unknown'' \<mapsto> record_call]) [] = ([(''compilation'', JNum 8)], None)"
proof -
  let ?th = "new_TagHandler [''edit'' \<mapsto> (ignore_tag :: (string \<times> json) list callback)]"
  let ?th2 = "new_TagHandler [''unknown'' \<mapsto> record_call]"
  have a: "handlers ?th ''compilation'' = None"
    by (simp add: new_TagHandler_def map_add_def)
  have b: "handlers ?th2 ''unknown'' = Some record_call"
    by (simp add: new_TagHandler_def)
  have c: "handlers ?th2 ''compilation'' = None"
    by (simp add: new_TagHandler_def map_add_def)
  note reg = unknown_tag_is_fallback[THEN conjunct2, THEN conjunct2, THEN conjunct1]
  note run = unknown_tag_is_fallback[THEN conjunct2, THEN conjunct2, THEN conjunct2,
      THEN conjunct2]
  have p1: "get_callback (register_callback ?th ''unknown'' record_call) ''compilation''
      = Inr record_call"
    using a reg[of ?th "''compilation''" record_call] by simp
  have p2: "get_callback (register_callback ?th ''unknown'' record_call) ''unknown''
      = Inr record_call"
    using reg[of ?th "''unknown''" record_call] by simp
  have p3: "scan [Parsed (JObj [(''tag'', JStr ''unknown''), (''value'', JNum 7)])] ?th2 []
      = ([(''unknown'', JNum 7)], None)"
    using b run[of ?th2 record_call "''unknown''"
        "Parsed (JObj [(''tag'', JStr ''unknown''), (''value'', JNum 7)])" "JNum 7" "[]"]
    by (simp add: record_call_def)
  have p4: "scan [Parsed (JObj [(''tag'', JStr ''compilation''), (''value'', JNum 8)])] ?th2 []
      = ([(''compilation'', JNum 8)], None)"
    using b c run[of ?th2 record_call "''compilation''"
        "Parsed (JObj [(''tag'', JStr ''compilation''), (''value'', JNum 8)])" "JNum 8" "[]"]
    by (simp add: record_call_def)
  show ?thesis
    using p1 p2 p3 p4 by simp
qed

section \<open>Looking up edit events by snapshot id\<close>

lemma find_edit_loop_filter:
  "find_edit_loop evs snapid result = result @ filter (edit_with_snapid snapid) evs"
  by (induction evs arbitrary: result) (auto simp: edit_with_snapid_def)

text \<open>
  Claim C7. \<open>find_single_edit_event_with_snapid\<close> loads the events if that is still to
  do, and then: when no event is an Edit whose \<open>snapids\<close> hold the id, it returns none;
  when exactly one event \<open>e\<close> is, it returns \<open>e\<close>; when two or more are, it fails with
  the error for multiple edit events.
\<close>

theorem find_single_edit_event_cases:
  "((\<forall>e\<in>set (events (load_events wh file_events)). \<not> edit_with_snapid snapid e) \<longrightarrow>
      snd (find_single_edit_event_with_snapid wh file_events snapid) = Inr None)
   \<and> (filter (edit_with_snapid snapid) (events (load_events wh file_events)) = [e] \<longrightarrow>
      snd (find_single_edit_event_with_snapid wh file_events snapid) = Inr (Some e))
   \<and> (2 \<le> length (filter (edit_with_snapid snapid) (events (load_events wh file_events))) \<longrightarrow>
      snd (find_single_edit_event_with_snapid wh file_events snapid) = Inl MultipleEditEvents)
   \<and> fst (find_single_edit_event_with_snapid wh file_events snapid) = load_events wh file_events"
proof -
  let ?m = "filter (edit_with_snapid snapid) (events (load_events wh file_events))"
  have r: "find_single_edit_event_with_snapid wh file_events snapid =
      (load_events wh file_events,
       if length ?m = 0 then Inr None
       else if length ?m = 1 then Inr (Some (?m ! 0))
       else Inl MultipleEditEvents)"
    by (simp add: find_single_edit_event_with_snapid_def find_edit_events_with_snapid_def
        find_edit_loop_filter Let_def)
  have n: "(\<forall>e\<in>set (events (load_events wh file_events)). \<not> edit_with_snapid snapid e) \<Longrightarrow> ?m = []"
    by (simp add: filter_empty_conv)
  show ?thesis
    using n by (auto simp: r)
qed

theorem find_single_edit_event_cases_witness:
  "snd (find_single_edit_event_with_snapid (new_WorkHistory 1 1 False)
      [\<lparr>event_class = Edit, editid = Some 1, ts = 10, snapids = Some [''s1'']\<rparr>,
       \<lparr>event_class = Edit, editid = Some 2, ts = 20, snapids = Some [''s1'', ''s2'']\<rparr>] ''s1'')
     = Inl MultipleEditEvents
   \<and> snd (find_single_edit_event_with_snapid (new_WorkHistory 1 1 False)
      [\<lparr>event_class = Edit, editid = Some 1, ts = 10, snapids = Some [''s1'']\<rparr>,
       \<lparr>event_class = Edit, editid = Some 2, ts = 20, snapids = Some [''s1'', ''s2'']\<rparr>] ''s2'')
     = Inr (Some \<lparr>event_class = Edit, editid = Some 2, ts = 20, snapids = Some [''s1'', ''s2'']\<rparr>)
   \<and> snd (find_single_edit_event_with_snapid (new_WorkHistory 1 1 False)
      [\<lparr>event_class = Edit, editid = Some 1, ts = 10, snapids = Some [''s1'']\<rparr>,
       \<lparr>event_class = Edit, editid = Some 2, ts = 20, snapids = Some [''s1'', ''s2'']\<rparr>] ''s3'')
     = Inr None"
proof -
  let ?wh = "new_WorkHistory 1 1 False :: string WorkHistory"
  let ?e1 = "\<lparr>event_class = Edit, editid = Some 1, ts = 10, snapids = Some [''s1'']\<rparr>"
  let ?e2 = "\<lparr>event_class = Edit, editid = Some 2, ts = 20, snapids = Some [''s1'', ''s2'']\<rparr>"
  have l: "events (load_events ?wh [?e1, ?e2]) = [?e1, ?e2]"
    by (simp add: load_events_def read_work_history_def new_WorkHistory_def Let_def)
  have m1: "filter (edit_with_snapid ''s1'') [?e1, ?e2] = [?e1, ?e2]"
    by (simp add: edit_with_snapid_def)
  have m2: "filter (edit_with_snapid ''s2'') [?e1, ?e2] = [?e2]"
    by (simp add: edit_with_snapid_def)
  have m3: "\<forall>e\<in>set [?e1, ?e2]. \<not> edit_with_snapid ''s3'' e"
    by (simp add: edit_with_snapid_def)
  have p1: "snd (find_single_edit_event_with_snapid ?wh [?e1, ?e2] ''s1'') = Inl MultipleEditEvents"
    using find_single_edit_event_cases[of ?wh "[?e1, ?e2]" "''s1''" ?e1] l m1 by simp
  have p2: "snd (find_single_edit_event_with_snapid ?wh [?e1, ?e2] ''s2'') = Inr (Some ?e2)"
    using find_single_edit_event_cases[of ?wh "[?e1, ?e2]" "''s2''" ?e2] l m2 by simp
  have p3: "snd (find_single_edit_event_with_snapid ?wh [?e1, ?e2] ''s3'') = Inr None"
    using find_single_edit_event_cases[of ?wh "[?e1, ?e2]" "''s3''" ?e1] l m3 by simp
  show ?thesis using p1 p2 p3 by simp
qed

section \<open>Sorting the events of a WorkHistory\<close>

lemma compare_events_swap: "compare_events b a = - compare_events a b"
  by (auto simp: compare_events_def Let_def split: option.splits)

lemma cmp_to_key_asym:
  "cmp_to_key compare_events a b \<Longrightarrow> \<not> cmp_to_key compare_events b a"
  using compare_events_swap[of a b] by (simp add: cmp_to_key_def)

lemma in_order_iff_not_less: "in_order a b \<longleftrightarrow> \<not> cmp_to_key compare_events b a"
  using compare_events_swap[of b a] by (auto simp add: in_order_def cmp_to_key_def)

lemma in_order_fun: "in_order = (\<lambda>a b. \<not> cmp_to_key compare_events b a)"
  by (intro ext) (rule in_order_iff_not_less)

lemma in_order_rule:
  "in_order a b \<longleftrightarrow>
     (case (editid a, editid b) of
        (Some x, Some y) \<Rightarrow> x < y \<or> (x = y \<and> ts a \<le> ts b)
      | _ \<Rightarrow> ts a \<le> ts b)"
  by (auto simp: in_order_def compare_events_def Let_def split: option.splits)

lemma bisect_place:
  assumes "l \<le> r" and "r \<le> length a"
    and "0 < l \<longrightarrow> \<not> lt pivot (a ! (l - 1))"
    and "r < length a \<longrightarrow> lt pivot (a ! r)"
  shows "l \<le> bisect lt pivot a l r \<and> bisect lt pivot a l r \<le> r
       \<and> (0 < bisect lt pivot a l r \<longrightarrow> \<not> lt pivot (a ! (bisect lt pivot a l r - 1)))
       \<and> (bisect lt pivot a l r < length a \<longrightarrow> lt pivot (a ! (bisect lt pivot a l r)))"
  using assms
proof (induction lt pivot a l r rule: bisect.induct)
  case (1 lt pivot a l r)
  show ?case
  proof (cases "l < r")
    case False
    then have "bisect lt pivot a l r = l" by (simp add: bisect.simps)
    moreover have "l = r" using False "1.prems"(1) by simp
    ultimately show ?thesis using "1.prems" by simp
  next
    case True
    define p where "p = l + (r - l) div 2"
    have pl: "l \<le> p" and pr: "p < r" using True by (simp_all add: p_def)
    show ?thesis
    proof (cases "lt pivot (a ! p)")
      case lt: True
      have e: "bisect lt pivot a l r = bisect lt pivot a l p"
        using True lt by (subst bisect.simps) (simp add: p_def Let_def)
      have "l \<le> bisect lt pivot a l p \<and> bisect lt pivot a l p \<le> p
       \<and> (0 < bisect lt pivot a l p \<longrightarrow> \<not> lt pivot (a ! (bisect lt pivot a l p - 1)))
       \<and> (bisect lt pivot a l p < length a \<longrightarrow> lt pivot (a ! (bisect lt pivot a l p)))"
        using "1.IH"(1)[OF True p_def lt]
          pl pr lt "1.prems"
        by simp
      then show ?thesis using e pr by simp
    next
      case nlt: False
      have e: "bisect lt pivot a l r = bisect lt pivot a (p + 1) r"
        using True nlt by (subst bisect.simps) (simp add: p_def Let_def)
      have "p + 1 \<le> bisect lt pivot a (p + 1) r \<and> bisect lt pivot a (p + 1) r \<le> r
       \<and> (0 < bisect lt pivot a (p + 1) r \<longrightarrow> \<not> lt pivot (a ! (bisect lt pivot a (p + 1) r - 1)))
       \<and> (bisect lt pivot a (p + 1) r < length a \<longrightarrow> lt pivot (a ! (bisect lt pivot a (p + 1) r)))"
        using "1.IH"(2)[OF True p_def nlt]
          pl pr nlt "1.prems"
        by simp
      then show ?thesis using e pl by simp
    qed
  qed
qed


lemma mset_take_drop: "mset (take l a) + mset (drop l a) = mset a"
  by (metis append_take_drop_id mset_append)

lemma mset_insert_at: "mset (take l a @ pivot # drop l a) = add_mset pivot (mset a)"
  by (simp add: mset_take_drop)

lemma mset_binarysort: "mset (binarysort lt pre rest) = mset pre + mset rest"
  by (induction rest arbitrary: pre) (simp_all add: Let_def mset_take_drop)

lemma mset_list_sort: "mset (list_sort lt xs) = mset xs"
proof (cases "length xs < 2")
  case True
  then show ?thesis by (simp add: list_sort_def)
next
  case False
  obtain n d where c: "count_run lt xs = (n, d)" by (cases "count_run lt xs")
  show ?thesis using False c by (simp add: list_sort_def mset_binarysort mset_take_drop)
qed

lemma set_list_sort: "set (list_sort lt xs) = set xs"
  using mset_list_sort[of lt xs] by (metis set_mset_mset)

text \<open>Putting an element between two neighbours it is in order with keeps a list in order.\<close>

lemma successively_insert_at:
  assumes "successively R a" and "k \<le> length a"
    and "0 < k \<longrightarrow> R (a ! (k - 1)) pivot"
    and "k < length a \<longrightarrow> R pivot (a ! k)"
  shows "successively R (take k a @ pivot # drop k a)"
proof -
  have s: "successively R (take k a @ drop k a)" using assms(1) by simp
  have t: "successively R (take k a)" and d: "successively R (drop k a)"
    using s unfolding successively_append_iff by blast+
  have l: "take k a \<noteq> [] \<Longrightarrow> R (last (take k a)) pivot"
  proof -
    assume ne: "take k a \<noteq> []"
    then have "0 < k" by (cases k) auto
    moreover have "last (take k a) = a ! (k - 1)"
      using ne assms(2) by (simp add: last_conv_nth min_absorb2)
    ultimately show ?thesis using assms(3) by simp
  qed
  have h: "drop k a \<noteq> [] \<Longrightarrow> R pivot (hd (drop k a))"
  proof -
    assume ne: "drop k a \<noteq> []"
    then have "k < length a" by simp
    then show ?thesis using assms(4) by (simp add: hd_drop_conv_nth)
  qed
  have "successively R (pivot # drop k a)"
    using d h by (cases "drop k a") auto
  then show ?thesis
    using t l by (auto simp: successively_append_iff)
qed

lemma successively_binarysort:
  assumes asym: "\<And>a b. lt a b \<Longrightarrow> \<not> lt b a"
    and "successively (\<lambda>a b. \<not> lt b a) pre"
  shows "successively (\<lambda>a b. \<not> lt b a) (binarysort lt pre rest)"
  using assms(2)
proof (induction rest arbitrary: pre)
  case Nil
  then show ?case by simp
next
  case (Cons pivot rest)
  define k where "k = bisect lt pivot pre 0 (length pre)"
  have b: "0 \<le> k \<and> k \<le> length pre
       \<and> (0 < k \<longrightarrow> \<not> lt pivot (pre ! (k - 1)))
       \<and> (k < length pre \<longrightarrow> lt pivot (pre ! k))"
    unfolding k_def by (rule bisect_place) simp_all
  have "successively (\<lambda>a b. \<not> lt b a) (take k pre @ pivot # drop k pre)"
  proof (rule successively_insert_at[OF Cons.prems])
    show "k \<le> length pre" using b by simp
    show "0 < k \<longrightarrow> \<not> lt pivot (pre ! (k - 1))" using b by simp
    show "k < length pre \<longrightarrow> \<not> lt (pre ! k) pivot" using b asym by blast
  qed
  then have "successively (\<lambda>a b. \<not> lt b a) (binarysort lt (take k pre @ pivot # drop k pre) rest)"
    by (rule Cons.IH)
  then show ?case by (simp add: Let_def k_def)
qed

lemma successively_run:
  "successively C (x # take (run_len C x xs) xs)"
  by (induction xs arbitrary: x) auto

lemma run_len_all:
  "successively C (x # xs) \<Longrightarrow> run_len C x xs = length xs"
  by (induction xs arbitrary: x) auto

lemma successively_first_run:
  assumes asym: "\<And>a b. lt a b \<Longrightarrow> \<not> lt b a"
    and "count_run lt xs = (n, d)"
  shows "successively (\<lambda>a b. \<not> lt b a) (if d then rev (take n xs) else take n xs)"
proof (cases "(lt, xs)" rule: count_run.cases)
  case (1 lt')
  then show ?thesis by simp
next
  case (2 lt' x)
  then show ?thesis using assms(2) by auto
next
  case (3 lt' x y zs)
  then have xs: "xs = x # y # zs" by simp
  show ?thesis
  proof (cases "lt y x")
    case True
    then have n: "n = 2 + run_len (\<lambda>prev cur. lt cur prev) y zs" and d: "d"
      using assms(2) xs by auto
    have "successively (\<lambda>prev cur. lt cur prev) (y # take (run_len (\<lambda>prev cur. lt cur prev) y zs) zs)"
      by (rule successively_run)
    then have "successively (\<lambda>prev cur. lt cur prev) (take n xs)"
      using True by (simp add: n xs)
    then have "successively (\<lambda>prev cur. \<not> lt prev cur) (take n xs)"
      by (rule successively_mono) (use asym in blast)+
    then show ?thesis using d by (simp add: successively_rev)
  next
    case False
    then have n: "n = 2 + run_len (\<lambda>prev cur. \<not> lt cur prev) y zs" and d: "\<not> d"
      using assms(2) xs by auto
    have "successively (\<lambda>prev cur. \<not> lt cur prev)
        (y # take (run_len (\<lambda>prev cur. \<not> lt cur prev) y zs) zs)"
      by (rule successively_run)
    then have "successively (\<lambda>prev cur. \<not> lt cur prev) (take n xs)"
      using False by (simp add: n xs)
    then show ?thesis using d by simp
  qed
qed

lemma successively_list_sort:
  assumes asym: "\<And>a b. lt a b \<Longrightarrow> \<not> lt b a"
  shows "successively (\<lambda>a b. \<not> lt b a) (list_sort lt xs)"
proof (cases "length xs < 2")
  case True
  then have "xs = [] \<or> (\<exists>x. xs = [x])"
    by (cases xs) (auto simp: length_Suc_conv)
  then show ?thesis using True by (auto simp: list_sort_def)
next
  case False
  obtain n d where c: "count_run lt xs = (n, d)" by (cases "count_run lt xs")
  have "successively (\<lambda>a b. \<not> lt b a)
      (binarysort lt (if d then rev (take n xs) else take n xs) (drop n xs))"
    by (rule successively_binarysort[OF asym successively_first_run[OF asym c]])
  then show ?thesis using False c by (simp add: list_sort_def)
qed

lemma list_sort_fixed:
  assumes "successively (\<lambda>a b. \<not> lt b a) xs"
  shows "list_sort lt xs = xs"
proof (cases "(lt, xs)" rule: count_run.cases)
  case (1 lt')
  then show ?thesis by (simp add: list_sort_def)
next
  case (2 lt' x)
  then show ?thesis by (simp add: list_sort_def)
next
  case (3 lt' x y zs)
  then have xs: "xs = x # y # zs" by simp
  have nlt: "\<not> lt y x" and rest: "successively (\<lambda>a b. \<not> lt b a) (y # zs)"
    using assms xs by auto
  have "run_len (\<lambda>prev cur. \<not> lt cur prev) y zs = length zs"
    using rest by (rule run_len_all)
  then show ?thesis using nlt xs by (simp add: list_sort_def)
qed

lemma successively_sorted_wrt_on:
  assumes "\<And>x y z. x \<in> set xs \<Longrightarrow> y \<in> set xs \<Longrightarrow> z \<in> set xs \<Longrightarrow> R x y \<Longrightarrow> R y z \<Longrightarrow> R x z"
    and "successively R xs"
  shows "sorted_wrt R xs"
  using assms
proof (induction xs)
  case Nil
  then show ?case by simp
next
  case (Cons x xs)
  have s: "sorted_wrt R xs"
    by (rule Cons.IH) (use Cons.prems in \<open>auto simp: successively_Cons\<close>)
  have "\<forall>y\<in>set xs. R x y"
  proof (cases xs)
    case Nil
    then show ?thesis by simp
  next
    case (Cons h t)
    have xh: "R x h" using Cons.prems(2) Cons by simp
    show ?thesis
    proof
      fix y assume y: "y \<in> set xs"
      show "R x y"
      proof (cases "y = h")
        case True
        then show ?thesis using xh by simp
      next
        case False
        then have "y \<in> set t" using y Cons by simp
        then have "R h y" using s Cons by simp
        then show ?thesis using Cons.prems(1)[of x h y] xh y Cons by simp
      qed
    qed
  qed
  then show ?case using s by simp
qed

lemma sort_events_successively: "successively in_order (sort_events evs)"
  using successively_list_sort[of "cmp_to_key compare_events" evs, OF cmp_to_key_asym]
  by (simp add: sort_events_def in_order_fun)

lemma sort_events_fixed: "successively in_order evs \<Longrightarrow> sort_events evs = evs"
  using list_sort_fixed[of "cmp_to_key compare_events" evs]
  by (simp add: sort_events_def in_order_fun)

lemma mset_sort_events: "mset (sort_events evs) = mset evs"
  by (simp add: sort_events_def mset_list_sort)

lemma sort_events_sorted:
  assumes "consistent_on evs"
  shows "sorted_wrt in_order (sort_events evs)"
proof (rule successively_sorted_wrt_on)
  show "successively in_order (sort_events evs)" by (rule sort_events_successively)
next
  fix x y z
  assume h: "x \<in> set (sort_events evs)" "y \<in> set (sort_events evs)"
    "z \<in> set (sort_events evs)" "in_order x y" "in_order y z"
  have m: "x \<in> set evs" "y \<in> set evs" "z \<in> set evs"
    using h(1,2,3) by (simp_all add: sort_events_def set_list_sort)
  show "in_order x z"
    using assms m h(4,5) unfolding consistent_on_def by blast
qed

lemma consistent_on_uniform:
  assumes "(\<forall>e\<in>set evs. editid e \<noteq> None) \<or> (\<forall>e\<in>set evs. editid e = None)"
  shows "consistent_on evs"
  unfolding consistent_on_def
  using assms by (auto simp: in_order_rule split: option.splits)

lemma load_events_new:
  "events (load_events (new_WorkHistory a st True) file_events) = sort_events file_events"
  by (simp add: load_events_def read_work_history_def new_WorkHistory_def Let_def)

text \<open>
  Sorting the result of a sort once more changes nothing, on lists of fewer than 64
  events and on lists that the rule orders consistently.
\<close>

lemma sort_events_twice:
  assumes "length evs < 64 \<or> consistent_on evs"
  shows "sort_events (sort_events evs) = sort_events evs"
  by (rule sort_events_fixed) (rule sort_events_successively)

text \<open>
  Claim C4, as amended. \<open>in_order a b\<close> is the rule: the comparison does not put \<open>b\<close>
  before \<open>a\<close>, which goes by \<open>editid\<close> when both events have one and the two differ, and
  by \<open>ts\<close> otherwise. When the rule orders the events of the file consistently, a
  WorkHistory constructed with sorting requested holds, after loading, a rearrangement
  of the events of the file in which every two events are in order, the earlier before
  the later. The rule does so whenever all events of the file have an \<open>editid\<close> or none
  has. The file with the Edits \<open>(editid 5, ts 100)\<close> and \<open>(editid 2, ts 200)\<close> is
  presented as \<open>editid 2\<close>, \<open>editid 5\<close>.
\<close>

theorem sorted_work_history_order:
  "(consistent_on file_events \<longrightarrow>
      mset (events (load_events (new_WorkHistory a st True) file_events)) = mset file_events
      \<and> sorted_wrt in_order (events (load_events (new_WorkHistory a st True) file_events)))
   \<and> ((\<forall>e\<in>set file_events. editid e \<noteq> None) \<or> (\<forall>e\<in>set file_events. editid e = None) \<longrightarrow>
        consistent_on file_events)
   \<and> (in_order x y \<longleftrightarrow>
        (case (editid x, editid y) of
           (Some i, Some j) \<Rightarrow> i < j \<or> (i = j \<and> ts x \<le> ts y)
         | _ \<Rightarrow> ts x \<le> ts y))
   \<and> events (load_events (new_WorkHistory a st True)
        [\<lparr>event_class = Edit, editid = Some 5, ts = 100, snapids = None\<rparr>,
         \<lparr>event_class = Edit, editid = Some 2, ts = 200, snapids = None\<rparr>])
      = [\<lparr>event_class = Edit, editid = Some 2, ts = 200, snapids = None\<rparr>,
         \<lparr>event_class = Edit, editid = Some 5, ts = 100, snapids = None\<rparr>]"
proof (intro conjI impI)
  show "mset (events (load_events (new_WorkHistory a st True) file_events)) = mset file_events"
    by (simp add: load_events_new mset_sort_events)
  show "sorted_wrt in_order (events (load_events (new_WorkHistory a st True) file_events))"
    if "consistent_on file_events"
    using that by (simp only: load_events_new sort_events_sorted)
  show "consistent_on file_events"
    if "(\<forall>e\<in>set file_events. editid e \<noteq> None) \<or> (\<forall>e\<in>set file_events. editid e = None)"
    using that by (rule consistent_on_uniform)
  show "in_order x y \<longleftrightarrow>
        (case (editid x, editid y) of
           (Some i, Some j) \<Rightarrow> i < j \<or> (i = j \<and> ts x \<le> ts y)
         | _ \<Rightarrow> ts x \<le> ts y)"
    by (rule in_order_rule)
  show "events (load_events (new_WorkHistory a st True)
        [\<lparr>event_class = Edit, editid = Some 5, ts = 100, snapids = None\<rparr>,
         \<lparr>event_class = Edit, editid = Some 2, ts = 200, snapids = None\<rparr>])
      = [\<lparr>event_class = Edit, editid = Some 2, ts = 200, snapids = None\<rparr>,
         \<lparr>event_class = Edit, editid = Some 5, ts = 100, snapids = None\<rparr>]"
    by (simp add: load_events_new sort_events_def list_sort_def cmp_to_key_def compare_events_def)
qed

theorem sorted_work_history_order_witness:
  "sorted_wrt in_order (events (load_events (new_WorkHistory 1 1 True)
      [\<lparr>event_class = Edit, editid = Some 5, ts = 100, snapids = None\<rparr>,
       \<lparr>event_class = Edit, editid = Some 2, ts = 200, snapids = None\<rparr>,
       \<lparr>event_class = Edit, editid = Some 2, ts = 50, snapids = None\<rparr>]))
   \<and> sorted_wrt in_order (events (load_events (new_WorkHistory 1 1 True)
      [\<lparr>event_class = Submission, editid = None, ts = 7, snapids = None\<rparr>,
       \<lparr>event_class = Compilation, editid = None, ts = 3, snapids = None\<rparr>]))"
proof -
  let ?f1 = "[\<lparr>event_class = Edit, editid = Some 5, ts = 100, snapids = None\<rparr>,
       \<lparr>event_class = Edit, editid = Some 2, ts = 200, snapids = None\<rparr>,
       \<lparr>event_class = Edit, editid = Some 2, ts = 50, snapids = None\<rparr>]"
  let ?f2 = "[\<lparr>event_class = Submission, editid = None, ts = 7, snapids = None\<rparr>,
       \<lparr>event_class = Compilation, editid = None, ts = 3, snapids = None\<rparr>]"
  note ord = sorted_work_history_order[THEN conjunct1]
  note uni = sorted_work_history_order[THEN conjunct2, THEN conjunct1]
  have h1: "(\<forall>e\<in>set ?f1. editid e \<noteq> None) \<or> (\<forall>e\<in>set ?f1. editid e = None)"
    by simp
  have h2: "(\<forall>e\<in>set ?f2. editid e \<noteq> None) \<or> (\<forall>e\<in>set ?f2. editid e = None)"
    by simp
  have c1: "consistent_on ?f1" by (rule uni[rule_format, OF h1])
  have c2: "consistent_on ?f2" by (rule uni[rule_format, OF h2])
  show ?thesis
    using ord[of ?f1 1 1, rule_format, OF c1] ord[of ?f2 1 1, rule_format, OF c2]
    by blast
qed

text \<open>
  The claim C4 as it was stated fails on a file that mixes events with and without an
  \<open>editid\<close>: with a Submission at \<open>ts 150\<close> between the two Edits of the scenario no
  element is less than the one before it, the whole list is the run it begins with, the
  sort leaves it as it is in the file, and the Edit with \<open>editid 5\<close> stays before the
  Edit with \<open>editid 2\<close>.
\<close>

theorem sorted_work_history_counterexample:
  "events (load_events (new_WorkHistory 1 1 True)
      [\<lparr>event_class = Edit, editid = Some 5, ts = 100, snapids = None\<rparr>,
       \<lparr>event_class = Submission, editid = None, ts = 150, snapids = None\<rparr>,
       \<lparr>event_class = Edit, editid = Some 2, ts = 200, snapids = None\<rparr>])
    = [\<lparr>event_class = Edit, editid = Some 5, ts = 100, snapids = None\<rparr>,
       \<lparr>event_class = Submission, editid = None, ts = 150, snapids = None\<rparr>,
       \<lparr>event_class = Edit, editid = Some 2, ts = 200, snapids = None\<rparr>]
   \<and> \<not> in_order \<lparr>event_class = Edit, editid = Some 5, ts = 100, snapids = None\<rparr>
                 \<lparr>event_class = Edit, editid = Some 2, ts = 200, snapids = None\<rparr>
   \<and> \<not> sorted_wrt in_order (events (load_events (new_WorkHistory 1 1 True)
      [\<lparr>event_class = Edit, editid = Some 5, ts = 100, snapids = None\<rparr>,
       \<lparr>event_class = Submission, editid = None, ts = 150, snapids = None\<rparr>,
       \<lparr>event_class = Edit, editid = Some 2, ts = 200, snapids = None\<rparr>]))"
  by (simp add: load_events_new sort_events_def list_sort_def cmp_to_key_def compare_events_def
      in_order_def)

section \<open>Listing a directory of the dataset\<close>

lemma first_index_takeWhile:
  "first_index c xs = (if c \<in> set xs then int (length (takeWhile (\<lambda>x. x \<noteq> c) xs)) else - 1)"
  by (induction xs) (auto simp: Let_def)

lemma zip_member_first_segment:
  assumes "rest \<noteq> []" and "hd rest \<noteq> SLASH"
  shows "zip_member rest = takeWhile (\<lambda>c. c \<noteq> SLASH) rest"
proof (cases "SLASH \<in> set rest")
  case False
  then have tw: "takeWhile (\<lambda>c. c \<noteq> SLASH) rest = rest"
    by (auto simp: takeWhile_eq_all_conv)
  have "zip_member rest = rest"
    using False
    by (simp add: zip_member_def str_find_def slice_index_def first_index_takeWhile Let_def)
  then show ?thesis by (simp only: tw)
next
  case True
  obtain x xs where r: "rest = x # xs" using assms(1) by (cases rest) auto
  then have x: "x \<noteq> SLASH" using assms(2) by simp
  have pos: "0 < length (takeWhile (\<lambda>c. c \<noteq> SLASH) rest)" using r x by simp
  have le: "length (takeWhile (\<lambda>c. c \<noteq> SLASH) rest) \<le> length rest"
    by (rule length_takeWhile_le)
  have f: "str_find rest SLASH 0 = int (length (takeWhile (\<lambda>c. c \<noteq> SLASH) rest))"
    using True by (simp add: str_find_def slice_index_def first_index_takeWhile Let_def)
  have "py_slice rest 0 (int (length (takeWhile (\<lambda>c. c \<noteq> SLASH) rest)))
      = take (length (takeWhile (\<lambda>c. c \<noteq> SLASH) rest)) rest"
    using le by (simp add: py_slice_def slice_index_def Let_def)
  also have "\<dots> = takeWhile (\<lambda>c. c \<noteq> SLASH) rest"
    by (rule takeWhile_eq_take[symmetric])
  finally show ?thesis using f pos by (simp add: zip_member_def Let_def)
qed

lemma startswith_iff: "startswith fname pfx \<longleftrightarrow> (\<exists>rest. fname = pfx @ rest)"
proof
  assume "startswith fname pfx"
  then have "fname = pfx @ drop (length pfx) fname"
    by (metis append_take_drop_id startswith_def)
  then show "\<exists>rest. fname = pfx @ rest" ..
next
  assume "\<exists>rest. fname = pfx @ rest"
  then show "startswith fname pfx" by (auto simp: startswith_def)
qed

lemma slice_from_prefix: "slice_from (pfx @ rest) (int (length pfx)) = rest"
  by (simp add: slice_from_def slice_index_def)

lemma zip_listdir_loop_set:
  "zip_listdir_loop infos pfx result =
     result \<union> zip_member ` {rest. rest \<noteq> [] \<and> pfx @ rest \<in> set infos}"
proof (induction infos arbitrary: result)
  case Nil
  then show ?case by simp
next
  case (Cons fname infos)
  show ?case
  proof (cases "startswith fname pfx")
    case False
    then have "\<And>rest. fname \<noteq> pfx @ rest" by (simp add: startswith_iff)
    then have "{rest. rest \<noteq> [] \<and> pfx @ rest \<in> set (fname # infos)}
        = {rest. rest \<noteq> [] \<and> pfx @ rest \<in> set infos}" by auto
    then show ?thesis using False Cons.IH by simp
  next
    case True
    then obtain r where r: "fname = pfx @ r" by (auto simp: startswith_iff)
    have s: "{rest. rest \<noteq> [] \<and> pfx @ rest \<in> set (fname # infos)}
        = (if r \<noteq> [] then {r} else {}) \<union> {rest. rest \<noteq> [] \<and> pfx @ rest \<in> set infos}"
      using r by auto
    show ?thesis
      using True r Cons.IH by (auto simp: s slice_from_prefix Let_def)
  qed
qed

lemma finite_zip_children: "finite {rest. rest \<noteq> [] \<and> pfx @ rest \<in> set infos}"
proof -
  have "{rest. rest \<noteq> [] \<and> pfx @ rest \<in> set infos} \<subseteq> drop (length pfx) ` set infos"
    by force
  then show ?thesis by (rule finite_subset) simp
qed

text \<open>
  Claim C8, as amended. The archive backend returns a sorted list without duplicates.
  Its elements are the names that \<open>zip_member\<close> cuts from \<open>rest\<close>, for every entry whose
  name is the path, a slash and a non-empty \<open>rest\<close>; for a \<open>rest\<close> that does not begin
  with a slash that name is the first path segment of \<open>rest\<close>. The directory backend
  returns what the host's listing of \<open>basedir/path\<close> returns, as it is.
\<close>

theorem listdir_backends:
  "sorted (zip_listdir infolist path) \<and> distinct (zip_listdir infolist path)
   \<and> set (zip_listdir infolist path)
       = zip_member ` {rest. rest \<noteq> [] \<and> path @ [SLASH] @ rest \<in> set infolist}
   \<and> (rest \<noteq> [] \<and> hd rest \<noteq> SLASH \<longrightarrow>
        zip_member rest = takeWhile (\<lambda>c. c \<noteq> SLASH) rest)
   \<and> dir_listdir os_listdir basedir path = os_listdir (basedir @ [SLASH] @ path)"
proof -
  have fin: "finite (zip_member ` {rest. rest \<noteq> [] \<and> (path @ [SLASH]) @ rest \<in> set infolist})"
    using finite_zip_children by (rule finite_imageI)
  have e: "zip_listdir infolist path = sorted_list_of_set
      (zip_member ` {rest. rest \<noteq> [] \<and> (path @ [SLASH]) @ rest \<in> set infolist})"
    by (simp add: zip_listdir_def zip_listdir_loop_set)
  have "set (zip_listdir infolist path)
       = zip_member ` {rest. rest \<noteq> [] \<and> (path @ [SLASH]) @ rest \<in> set infolist}"
    unfolding e using fin by (rule set_sorted_list_of_set)
  then show ?thesis
    using zip_member_first_segment[of rest]
    by (simp add: e dir_listdir_def)
qed

theorem listdir_backends_witness:
  "zip_member ''1/2.txt'' = ''1''
   \<and> zip_listdir [''history/1/2.txt'', ''history/1/10.txt'', ''history/2/1.txt'',
        ''history/'', ''dataset.txt''] ''history'' = [''1'', ''2'']"
proof -
  have a: "zip_member ''1/2.txt'' = ''1''"
    using listdir_backends[of "[]" "[]" "''1/2.txt''"] by (simp add: SLASH_def)
  have b: "zip_listdir [''history/1/2.txt'', ''history/1/10.txt'', ''history/2/1.txt'',
        ''history/'', ''dataset.txt''] ''history'' = [''1'', ''2'']"
    by code_simp
  show ?thesis using a b by simp
qed

text \<open>
  The claim C8 as it was stated fails for the directory backend: the names come back in
  the order of the host's listing, which nothing sorts.
\<close>

theorem listdir_backends_counterexample:
  "dir_listdir (\<lambda>p. Inr [''b'', ''a'']) ''data'' ''history'' = Inr [''b'', ''a'']
   \<and> \<not> sorted [''b'', ''a'']"
  by (simp add: dir_listdir_def)

end
